theory Spec2Isabelle
  imports Main "HOL-Library.Sublist"
begin

section \<open>Data model of the editor (main.py)\<close>

text \<open>
  A Python \<open>str\<close> is a sequence of Unicode code points; \<open>len\<close> counts code points.
  Code points are natural numbers here, so that text outside ASCII is covered.
\<close>

type_synonym codepoint = nat
type_synonym str = "codepoint list"

definition str_of :: "string \<Rightarrow> str" where
  "str_of s = map of_char s"

text \<open>
  The status line: \<open>status_msg\<close> is built from fixed texts and f-strings; an f-string
  is kept as its template together with the values it interpolates.
\<close>

datatype message =
    Text string
  | Match_at int nat int          \<comment> \<open>\<open>f"Match {a}/{b} at {c}"\<close>\<close>
  | Jumped_to int                 \<comment> \<open>\<open>f"Jumped to {ln+1}"\<close>\<close>
  | No_matches_for str            \<comment> \<open>\<open>f"No matches for '{t}'"\<close>\<close>
  | Save_error string             \<comment> \<open>\<open>f"Save error: {e}"\<close>\<close>
  | Reload_error string           \<comment> \<open>\<open>f"Reload error: {e}"\<close>\<close>

text \<open>
  \<open>class EditorState\<close>. The fields \<open>top\<close> and the method \<open>total\<close> are named
  \<open>top_line\<close> and \<open>total_lines\<close>: both names are constants of HOL. The integers are
  Python's unbounded ones; \<open>match_index = -1\<close> is the "no current match" sentinel.
\<close>

record editor_state =
  filename :: string
  cfg :: "(string \<times> string) list"
  lines :: "str list"
  trailing_nl :: bool
  top_line :: int
  sel :: int
  window_h :: int
  window_w :: int
  modified :: bool
  search_term :: "str option"
  search_matches :: "nat list"
  match_index :: int
  status_msg :: message
  status_type :: string

definition total_lines :: "editor_state \<Rightarrow> int" where
  "total_lines st = int (length (lines st))"

definition selected_index :: "editor_state \<Rightarrow> int" where
  "selected_index st = top_line st + sel st"

subsection \<open>\<open>EditorState.clamp\<close>\<close>

text \<open>
  The method is a sequence of guarded assignments to \<open>self.top\<close> and \<open>self.sel\<close>;
  each \<open>let\<close> below is one of them, in the order of the source, and the state is
  written once with the final values.
\<close>

definition clamp :: "editor_state \<Rightarrow> editor_state" where
  "clamp st =
    (if window_h st \<le> 0 then st
     else
       let max_top = max 0 (total_lines st - window_h st);
           top1 = (if top_line st < 0 then 0 else top_line st);
           top2 = (if top1 > max_top then max_top else top1);
           sel1 = (if sel st < 0 then 0 else sel st);
           sel2 = (if sel1 \<ge> window_h st then window_h st - 1 else sel1)
       in if top2 + sel2 \<ge> total_lines st then
            (if total_lines st = 0 then st\<lparr>top_line := 0, sel := 0\<rparr>
             else
               let last = total_lines st - 1;
                   top3 = max 0 (last - (window_h st - 1))
               in st\<lparr>top_line := top3, sel := last - top3\<rparr>)
          else st\<lparr>top_line := top2, sel := sel2\<rparr>)"

definition set_status :: "editor_state \<Rightarrow> message \<Rightarrow> string \<Rightarrow> editor_state" where
  "set_status st msg tp = st\<lparr>status_msg := msg, status_type := tp\<rparr>"

subsection \<open>Python's string operations\<close>

text \<open>
  \<open>str.lower\<close> belongs to the interpreter, not to this program, and its full Unicode
  case table is not reproduced: every function below that lowers text takes the
  lowering function as its first argument \<open>lower\<close>, and the general theorems hold for
  whatever it is. For evaluation on concrete text, \<open>py_lower\<close> gives Python's result on
  text made of Basic Latin and Latin-1 (U+0000 to U+00FF), U+0130 (capital I with dot
  above, the one code point whose lowercase is two code points, U+0069 U+0307), U+0307
  and the Greek letters U+0391 to U+03A9 and U+03B1 to U+03C9; it leaves every other
  code point as it is. \<open>str.lower\<close> is not a map over the code points: the capital
  sigma U+03A3 becomes the final sigma U+03C2 when a cased letter stands before it
  and none after it (code points that are "case-ignorable" are skipped on both
  sides), and the small sigma U+03C3 otherwise. \<open>cased\<close> and \<open>case_ignorable\<close> are the
  two properties on the code points listed.
\<close>

definition lower_cp :: "codepoint \<Rightarrow> str" where
  "lower_cp c =
    (if c = 304 then [105, 775]
     else if (65 \<le> c \<and> c \<le> 90) \<or> (192 \<le> c \<and> c \<le> 222 \<and> c \<noteq> 215)
             \<or> (913 \<le> c \<and> c \<le> 937 \<and> c \<noteq> 930) then [c + 32]
     else [c])"

definition case_ignorable :: "codepoint \<Rightarrow> bool" where
  "case_ignorable c = (c \<in> set [39, 46, 58, 94, 96, 168, 173, 175, 180, 183, 184, 775])"

definition cased :: "codepoint \<Rightarrow> bool" where
  "cased c =
    ((65 \<le> c \<and> c \<le> 90) \<or> (97 \<le> c \<and> c \<le> 122) \<or> c = 170 \<or> c = 181 \<or> c = 186
     \<or> (192 \<le> c \<and> c \<le> 214) \<or> (216 \<le> c \<and> c \<le> 246) \<or> (248 \<le> c \<and> c \<le> 255)
     \<or> c = 304 \<or> (913 \<le> c \<and> c \<le> 929) \<or> (931 \<le> c \<and> c \<le> 937)
     \<or> (945 \<le> c \<and> c \<le> 969))"

text \<open>
  \<open>final_sigma before after\<close>: the test for a sigma that has the text \<open>before\<close> in front
  of it (nearest code point first) and the text \<open>after\<close> behind it.
\<close>

definition final_sigma :: "str \<Rightarrow> str \<Rightarrow> bool" where
  "final_sigma before after =
    ((case dropWhile case_ignorable before of [] \<Rightarrow> False | c # rest \<Rightarrow> cased c)
     \<and> (case dropWhile case_ignorable after of [] \<Rightarrow> True | c # rest \<Rightarrow> \<not> cased c))"

fun lower_from :: "str \<Rightarrow> str \<Rightarrow> str" where
  "lower_from before [] = []"
| "lower_from before (c # rest) =
     (if c = 931 \<and> final_sigma before rest then [962] else lower_cp c)
     @ lower_from (c # before) rest"

definition py_lower :: "str \<Rightarrow> str" where
  "py_lower s = lower_from [] s"

text \<open>
  The slice \<open>xs[a:b]\<close> for indices \<open>0 \<le> a\<close> and \<open>0 \<le> b\<close>: Python cuts it to the list
  and gives the empty list when \<open>b \<le> a\<close>. The test \<open>t in s\<close> on strings is
  \<^const>\<open>sublist\<close>: \<open>s\<close> is some prefix, then \<open>t\<close>, then some suffix.
\<close>

definition slice :: "'a list \<Rightarrow> nat \<Rightarrow> nat \<Rightarrow> 'a list" where
  "slice xs a b = take (b - a) (drop a xs)"

subsection \<open>\<open>find_positions\<close>\<close>

text \<open>
  The \<open>while\<close> loop of \<open>find_positions\<close>, with \<open>low = line.lower()\<close> and
  \<open>t = term.lower()\<close>. Its bound is \<open>len(line) - lt\<close>, an integer that may be negative,
  while the slices are taken from \<open>low\<close>. The step \<open>i += lt\<close> makes no progress when
  \<open>lt = 0\<close>, so the loop is a partial function: \<open>None\<close> is "does not return".
\<close>

partial_function (option) positions_loop ::
  "str \<Rightarrow> str \<Rightarrow> str \<Rightarrow> nat \<Rightarrow> (nat \<times> nat) list \<Rightarrow> (nat \<times> nat) list option" where
  "positions_loop line low t i res =
    (if int i \<le> int (length line) - int (length t) then
       (if slice low i (i + length t) = t
        then positions_loop line low t (i + length t) (res @ [(i, i + length t)])
        else positions_loop line low t (i + 1) res)
     else Some res)"

declare positions_loop.simps [code]

definition find_positions ::
  "(str \<Rightarrow> str) \<Rightarrow> str \<Rightarrow> str option \<Rightarrow> (nat \<times> nat) list option" where
  "find_positions lower line term =
    (case term of
       None \<Rightarrow> Some []
     | Some tm \<Rightarrow>
         if tm = [] then Some []
         else positions_loop line (lower line) (lower tm) 0 [])"

text \<open>
  How \<open>draw\<close> cuts a line along the spans: for each span \<open>(s, e)\<close> the plain segment
  \<open>line[cur:s]\<close> (drawn only when it is not empty), then the highlighted segment
  \<open>line[s:e]\<close>, then \<open>cur = e\<close>; after the last span the tail \<open>line[cur:]\<close> when
  \<open>cur < len(line)\<close>. The flag says whether the segment is highlighted. The cut at the
  right edge of the terminal is left out: this is the row of a terminal wide enough.
\<close>

fun line_segments :: "str \<Rightarrow> nat \<Rightarrow> (nat \<times> nat) list \<Rightarrow> (bool \<times> str) list" where
  "line_segments line cur [] = (if cur < length line then [(False, drop cur line)] else [])"
| "line_segments line cur ((s, e) # rest) =
     (if slice line cur s \<noteq> [] then [(False, slice line cur s)] else [])
     @ (True, slice line s e) # line_segments line e rest"

text \<open>
  Two properties of a list of spans, for the theorems. \<open>spans_within n cur\<close>: the spans
  are in ascending order from \<open>cur\<close> on, each starts at or after the end of the one
  before, and all end at or before \<open>n\<close>. \<open>greedy_spans low t n cur\<close>: the spans are the
  greedy scan of \<open>low\<close> for \<open>t\<close> from \<open>cur\<close> on, over start positions \<open>k\<close> with
  \<open>k + len(t) \<le> n\<close>: each span is an occurrence, no occurrence starts between the end
  of a span and the start of the next, and none starts after the last.
\<close>

fun spans_within :: "nat \<Rightarrow> nat \<Rightarrow> (nat \<times> nat) list \<Rightarrow> bool" where
  "spans_within n cur [] = True"
| "spans_within n cur ((s, e) # rest) = (cur \<le> s \<and> s \<le> e \<and> e \<le> n \<and> spans_within n e rest)"

fun greedy_spans :: "str \<Rightarrow> str \<Rightarrow> nat \<Rightarrow> nat \<Rightarrow> (nat \<times> nat) list \<Rightarrow> bool" where
  "greedy_spans low t n cur [] =
     (\<forall>k \<in> {cur ..< n + 1 - length t}. slice low k (k + length t) \<noteq> t)"
| "greedy_spans low t n cur ((s, e) # rest) =
     (cur \<le> s \<and> e = s + length t \<and> e \<le> n \<and> slice low s e = t
      \<and> (\<forall>k \<in> {cur ..< s}. slice low k (k + length t) \<noteq> t)
      \<and> greedy_spans low t n e rest)"

subsection \<open>\<open>recompute_search\<close> and \<open>goto_search_match\<close>\<close>

text \<open>The loop \<open>for i, ln in enumerate(st.lines)\<close>, appending the index of each matching line.\<close>

fun collect_matches :: "(str \<Rightarrow> str) \<Rightarrow> str \<Rightarrow> nat \<Rightarrow> str list \<Rightarrow> nat list \<Rightarrow> nat list" where
  "collect_matches lower t i [] acc = acc"
| "collect_matches lower t i (ln # rest) acc =
     collect_matches lower t (i + 1) rest (if sublist t (lower ln) then acc @ [i] else acc)"

text \<open>
  The loop \<open>for idx, li in enumerate(st.search_matches)\<close> with its \<open>break\<close> and its
  \<open>else\<close> branch, which runs when the loop ends without \<open>break\<close>.
\<close>

fun first_at_or_after :: "int \<Rightarrow> nat \<Rightarrow> nat list \<Rightarrow> int" where
  "first_at_or_after s idx [] = 0"
| "first_at_or_after s idx (li # rest) =
     (if int li \<ge> s then int idx else first_at_or_after s (idx + 1) rest)"

definition recompute_search :: "(str \<Rightarrow> str) \<Rightarrow> editor_state \<Rightarrow> editor_state" where
  "recompute_search lower st =
    (case search_term st of
       None \<Rightarrow> st\<lparr>search_matches := [], match_index := - 1\<rparr>
     | Some tm \<Rightarrow>
         if tm = [] then st\<lparr>search_matches := [], match_index := - 1\<rparr>
         else
           let ms = collect_matches lower (lower tm) 0 (lines st) []
           in if ms = [] then st\<lparr>search_matches := ms, match_index := - 1\<rparr>
              else st\<lparr>search_matches := ms,
                      match_index := first_at_or_after (selected_index st) 0 ms\<rparr>)"

text \<open>
  \<open>%\<close> with a positive modulus is \<^const>\<open>modulo\<close> on \<^typ>\<open>int\<close> (the result is never
  negative) and \<open>//\<close> is \<^const>\<open>divide\<close> on \<^typ>\<open>int\<close> (rounding down). The new
  \<open>match_index\<close> is 0 or a remainder modulo the length, so the list access is in range.
\<close>

definition goto_search_match :: "editor_state \<Rightarrow> bool \<Rightarrow> editor_state" where
  "goto_search_match st forward =
    (if search_matches st = [] then set_status st (Text ''No matches'') ''err''
     else
       let mi = (if match_index st = - 1 then 0
                 else (match_index st + (if forward then 1 else - 1))
                        mod int (length (search_matches st)));
           target = int (search_matches st ! nat mi);
           half = window_h st div 2;
           top' = max 0 (target - half);
           st' = clamp (st\<lparr>match_index := mi, top_line := top', sel := target - top'\<rparr>)
       in set_status st' (Match_at (mi + 1) (length (search_matches st)) (target + 1)) ''info'')"

subsection \<open>\<open>read_file\<close> and \<open>write_file\<close>\<close>

text \<open>
  Both work on the text of the file: the argument of \<open>read_file\<close> is the file's content
  as code points and the result of \<open>write_file\<close> is the text handed to \<open>f.write\<close>.
  Reading bytes, decoding and encoding them and a missing file are the caller's
  (see \<open>read_result\<close> below). \<open>replace_crlf\<close> is \<open>raw.replace(b"\r\n", b"\n")\<close>, which
  the source applies before decoding; on UTF-8 it commutes with decoding.
\<close>

definition nl :: codepoint where
  "nl = 10"

definition cr :: codepoint where
  "cr = 13"

fun replace_crlf :: "str \<Rightarrow> str" where
  "replace_crlf (a # b # rest) =
     (if a = cr \<and> b = nl then nl # replace_crlf rest else a # replace_crlf (b # rest))"
| "replace_crlf s = s"

text \<open>\<open>text.split("\n")\<close>: never empty, one more piece than there are newlines.\<close>

fun split_nl :: "str \<Rightarrow> str list" where
  "split_nl [] = [[]]"
| "split_nl (c # rest) =
     (if c = nl then [] # split_nl rest
      else (case split_nl rest of p # ps \<Rightarrow> (c # p) # ps | [] \<Rightarrow> [[c]]))"

fun join_nl :: "str list \<Rightarrow> str" where
  "join_nl [] = []"
| "join_nl [l] = l"
| "join_nl (l # ls) = l @ nl # join_nl ls"

definition endswith_nl :: "str \<Rightarrow> bool" where
  "endswith_nl s = (s \<noteq> [] \<and> last s = nl)"

definition read_file :: "str \<Rightarrow> str list \<times> bool" where
  "read_file raw =
    (let text = replace_crlf raw;
         trailing = endswith_nl text;
         lines0 = split_nl text;
         lines1 = (if lines0 \<noteq> [] \<and> last lines0 = [] \<and> \<not> trailing then butlast lines0 else lines0)
     in (lines1, trailing))"

definition write_file :: "str list \<Rightarrow> bool \<Rightarrow> str" where
  "write_file lns trailing = (let txt = join_nl lns in if trailing then txt @ [nl] else txt)"

subsection \<open>The main loop: \<open>draw\<close> and the key dispatch of \<open>main_curses\<close>\<close>

text \<open>What \<open>draw\<close> does to the state, for a terminal of \<open>h\<close> rows and \<open>w\<close> columns.\<close>

definition draw :: "int \<Rightarrow> int \<Rightarrow> editor_state \<Rightarrow> editor_state" where
  "draw h w st = clamp (st\<lparr>window_h := max 1 (h - 2), window_w := w\<rparr>)"

text \<open>
  A key event carries what the outside world answers while the key is handled: the
  reply typed at a prompt (\<open>None\<close> when \<open>prompt_input\<close> returns \<open>None\<close>), the outcome of
  writing or reading the file, the configuration read back after the theme editor.
  The reply to "Go to line" is carried as parsed by \<open>n.strip().isdigit()\<close> and
  \<open>int(n.strip())\<close>: no reply, a reply that is not all digits, the number read, or
  \<open>Goto_error\<close> for a reply that \<open>isdigit()\<close> accepts and \<open>int()\<close> refuses (a superscript
  digit), where the \<open>ValueError\<close> is caught nowhere and ends the session. The reply to
  "Search" is carried after \<open>strip()\<close>.
\<close>

datatype goto_reply = Goto_none | Goto_invalid | Goto_number nat | Goto_error

datatype read_result = File_missing | Read_failed string | File_content str

datatype key_event =
    Key_quit "str option"
  | Key_up
  | Key_down
  | Key_ppage
  | Key_npage
  | Key_goto goto_reply
  | Key_edit "str option"
  | Key_save "string option"
  | Key_search "str option"
  | Key_next
  | Key_prev
  | Key_reload "str option" read_result
  | Key_theme "(string \<times> string) list"
  | Key_resize
  | Key_other
  | Key_interrupt

text \<open>\<open>ans and ans.lower() == "y"\<close>, and the truth value of \<open>st.search_term\<close>.\<close>

definition says_yes :: "(str \<Rightarrow> str) \<Rightarrow> str option \<Rightarrow> bool" where
  "says_yes lower ans = (case ans of None \<Rightarrow> False | Some a \<Rightarrow> a \<noteq> [] \<and> lower a = str_of ''y'')"

definition term_active :: "editor_state \<Rightarrow> bool" where
  "term_active st = (case search_term st of None \<Rightarrow> False | Some tm \<Rightarrow> tm \<noteq> [])"

definition key_up :: "editor_state \<Rightarrow> editor_state" where
  "key_up st =
    set_status
      (if sel st > 0 then st\<lparr>sel := sel st - 1\<rparr>
       else if top_line st > 0 then st\<lparr>top_line := top_line st - 1\<rparr>
       else st)
      (Text []) ''info''"

definition key_down :: "editor_state \<Rightarrow> editor_state" where
  "key_down st =
    set_status
      (if selected_index st + 1 < total_lines st then
         (if sel st + 1 < window_h st then st\<lparr>sel := sel st + 1\<rparr>
          else st\<lparr>top_line := top_line st + 1\<rparr>)
       else st)
      (Text []) ''info''"

definition key_ppage :: "editor_state \<Rightarrow> editor_state" where
  "key_ppage st =
    (let page = max 1 (window_h st - 1)
     in set_status (st\<lparr>top_line := max 0 (top_line st - page)\<rparr>) (Text []) ''info'')"

definition key_npage :: "editor_state \<Rightarrow> editor_state" where
  "key_npage st =
    (let page = max 1 (window_h st - 1)
     in set_status
          (st\<lparr>top_line := min (max 0 (total_lines st - window_h st)) (top_line st + page)\<rparr>)
          (Text []) ''info'')"

definition key_goto :: "goto_reply \<Rightarrow> editor_state \<Rightarrow> editor_state option" where
  "key_goto n st =
    (case n of
       Goto_number k \<Rightarrow>
         let ln = max 0 (min (int k - 1) (max 0 (total_lines st - 1)));
             top' = max 0 (ln - window_h st div 2)
         in Some (set_status (clamp (st\<lparr>top_line := top', sel := ln - top'\<rparr>))
                   (Jumped_to (ln + 1)) ''ok'')
     | Goto_error \<Rightarrow> None
     | Goto_invalid \<Rightarrow> Some (set_status st (Text ''Invalid line'') ''err'')
     | Goto_none \<Rightarrow> Some st)"

definition key_edit :: "(str \<Rightarrow> str) \<Rightarrow> str option \<Rightarrow> editor_state \<Rightarrow> editor_state" where
  "key_edit lower reply st =
    (let idx = selected_index st in
     if 0 \<le> idx \<and> idx < total_lines st then
       (case reply of
          None \<Rightarrow> set_status st (Text ''Edit cancelled'') ''info''
        | Some new \<Rightarrow>
            if new \<noteq> lines st ! nat idx then
              let st' = set_status (st\<lparr>lines := (lines st)[nat idx := new], modified := True\<rparr>)
                          (Text ''Line updated'') ''ok''
              in if term_active st' then recompute_search lower st' else st'
            else set_status st (Text ''Edit cancelled'') ''info'')
     else set_status st (Text ''Nothing to edit'') ''err'')"

text \<open>
  The key \<open>s\<close>: \<open>write_file\<close> either returns or raises; the outcome is \<open>None\<close> when it
  returned and \<open>Some e\<close> when it raised the exception with text \<open>e\<close>.
\<close>

definition key_save :: "string option \<Rightarrow> editor_state \<Rightarrow> editor_state" where
  "key_save outcome st =
    (case outcome of
       None \<Rightarrow> set_status (st\<lparr>modified := False\<rparr>) (Text ''Saved'') ''ok''
     | Some e \<Rightarrow> set_status st (Save_error e) ''err'')"

definition key_search :: "(str \<Rightarrow> str) \<Rightarrow> str option \<Rightarrow> editor_state \<Rightarrow> editor_state" where
  "key_search lower reply st =
    (case reply of
       None \<Rightarrow> set_status st (Text ''Search cancelled'') ''info''
     | Some t \<Rightarrow>
         if t = [] then
           set_status (recompute_search lower (st\<lparr>search_term := None\<rparr>)) (Text ''Search cleared'') ''info''
         else
           let st' = recompute_search lower (st\<lparr>search_term := Some t\<rparr>)
           in if search_matches st' \<noteq> [] then goto_search_match st' True
              else set_status st' (No_matches_for t) ''err'')"

definition key_reload ::
  "(str \<Rightarrow> str) \<Rightarrow> str option \<Rightarrow> read_result \<Rightarrow> editor_state \<Rightarrow> editor_state option" where
  "key_reload lower ans disk st =
    (if modified st \<and> \<not> says_yes lower ans then Some (set_status st (Text ''Reload cancelled'') ''info'')
     else
       (case disk of
          File_missing \<Rightarrow> None
        | Read_failed e \<Rightarrow> Some (set_status st (Reload_error e) ''err'')
        | File_content raw \<Rightarrow>
            let st' = set_status
                        (st\<lparr>lines := fst (read_file raw), trailing_nl := snd (read_file raw),
                            modified := False\<rparr>)
                        (Text ''Reloaded'') ''ok''
            in Some (if term_active st' then recompute_search lower st' else st')))"

text \<open>
  One pass of the dispatch. \<open>None\<close> is the end of the session: \<open>break\<close> on quit and on
  \<open>KeyboardInterrupt\<close> while waiting for a key, \<open>sys.exit(1)\<close> of \<open>read_file\<close> when the
  file is gone at reload (\<open>SystemExit\<close> is not caught by \<open>except Exception\<close>), and the
  \<open>ValueError\<close> of \<open>int()\<close> at "Go to line".
\<close>

definition handle_key :: "(str \<Rightarrow> str) \<Rightarrow> key_event \<Rightarrow> editor_state \<Rightarrow> editor_state option" where
  "handle_key lower key st =
    (case key of
       Key_quit ans \<Rightarrow> if modified st \<and> \<not> says_yes lower ans then Some st else None
     | Key_up \<Rightarrow> Some (key_up st)
     | Key_down \<Rightarrow> Some (key_down st)
     | Key_ppage \<Rightarrow> Some (key_ppage st)
     | Key_npage \<Rightarrow> Some (key_npage st)
     | Key_goto n \<Rightarrow> key_goto n st
     | Key_edit reply \<Rightarrow> Some (key_edit lower reply st)
     | Key_save outcome \<Rightarrow> Some (key_save outcome st)
     | Key_search reply \<Rightarrow> Some (key_search lower reply st)
     | Key_next \<Rightarrow> Some (goto_search_match st True)
     | Key_prev \<Rightarrow> Some (goto_search_match st False)
     | Key_reload ans disk \<Rightarrow> key_reload lower ans disk st
     | Key_theme cfg2 \<Rightarrow> Some (set_status (st\<lparr>cfg := cfg2\<rparr>) (Text ''Applied theme from config.json'') ''ok'')
     | Key_resize \<Rightarrow> Some (set_status st (Text ''Resized'') ''info'')
     | Key_other \<Rightarrow> Some st
     | Key_interrupt \<Rightarrow> None)"

text \<open>
  The loop \<open>while True: draw; get_wch; dispatch\<close> over the keys that arrive, each with
  the size of the terminal at that moment; the result is the state when the keys are
  used up or the session has ended.
\<close>

fun main_loop :: "(str \<Rightarrow> str) \<Rightarrow> ((int \<times> int) \<times> key_event) list \<Rightarrow> editor_state \<Rightarrow> editor_state" where
  "main_loop lower [] st = st"
| "main_loop lower (((h, w), key) # rest) st =
     (case handle_key lower key (draw h w st) of
        None \<Rightarrow> draw h w st
      | Some st' \<Rightarrow> main_loop lower rest st')"

text \<open>
  \<open>EditorState.__init__\<close> on the content of the file, and \<open>main_curses\<close> from there:
  one \<open>recompute_search\<close>, then the loop.
\<close>

definition initial_state :: "string \<Rightarrow> (string \<times> string) list \<Rightarrow> str \<Rightarrow> editor_state" where
  "initial_state name config raw =
    \<lparr> filename = name, cfg = config,
      lines = fst (read_file raw), trailing_nl = snd (read_file raw),
      top_line = 0, sel = 0, window_h = 0, window_w = 0,
      modified = False, search_term = None, search_matches = [], match_index = - 1,
      status_msg = Text ''Press q to quit, h for help'', status_type = ''info'' \<rparr>"

definition main_curses ::
  "(str \<Rightarrow> str) \<Rightarrow> string \<Rightarrow> (string \<times> string) list \<Rightarrow> str
     \<Rightarrow> ((int \<times> int) \<times> key_event) list \<Rightarrow> editor_state" where
  "main_curses lower name config raw keys =
     main_loop lower keys (recompute_search lower (initial_state name config raw))"

definition is_reload :: "key_event \<Rightarrow> bool" where
  "is_reload key = (case key of Key_reload ans disk \<Rightarrow> True | _ \<Rightarrow> False)"

text \<open>The viewport invariant of the data model, as a predicate on states.\<close>

definition viewport_ok :: "editor_state \<Rightarrow> bool" where
  "viewport_ok st =
    (0 \<le> top_line st \<and> top_line st \<le> max 0 (total_lines st - window_h st) \<and>
     0 \<le> sel st \<and> sel st < window_h st \<and>
     (if total_lines st = 0 then top_line st = 0 \<and> sel st = 0
      else top_line st + sel st < total_lines st))"

text \<open>A concrete session state for evaluation: three lines, nothing searched.\<close>

definition demo_state :: editor_state where
  "demo_state =
    \<lparr> filename = ''demo.txt'', cfg = [],
      lines = [str_of ''foo bar'', str_of ''baz foo'', str_of ''qux''],
      trailing_nl = False, top_line = 0, sel = 0, window_h = 2, window_w = 80,
      modified = False, search_term = None, search_matches = [], match_index = - 1,
      status_msg = Text ''Press q to quit, h for help'', status_type = ''info'' \<rparr>"

text \<open>The same session after a search for \<open>foo\<close>, standing on its second match.\<close>

definition demo_search_state :: editor_state where
  "demo_search_state =
     demo_state\<lparr>search_term := Some (str_of ''foo''), search_matches := [0, 1], match_index := 1\<rparr>"

text \<open>The session with the term \<open>Foo\<close> typed and the second line selected, before the search runs.\<close>

definition demo_term_state :: editor_state where
  "demo_term_state = demo_state\<lparr>search_term := Some (str_of ''Foo''), top_line := 1\<rparr>"

text \<open>
  A buffer of three lines under a window of five rows, and a buffer of a hundred
  (empty) lines under a window of ten rows whose selection stands at index 100, as
  after a reload that made the file shorter.
\<close>

definition tall_window_state :: editor_state where
  "tall_window_state = demo_state\<lparr>window_h := 5, top_line := 5, sel := 7\<rparr>"

definition long_buffer_state :: editor_state where
  "long_buffer_state =
     demo_state\<lparr>lines := replicate 100 [], window_h := 10, top_line := 95, sel := 5\<rparr>"

text \<open>
  A buffer with one line, the capital Greek letters omicron, delta, omicron, sigma,
  eta, mu, alpha (code points 927, 916, 927, 931, 919, 924, 913), and the term made of
  its first four letters.
\<close>

definition greek_state :: editor_state where
  "greek_state =
     demo_state\<lparr>lines := [[927, 916, 927, 931, 919, 924, 913]],
                search_term := Some [927, 916, 927, 931]\<rparr>"

text \<open>A run of keys, each with the size of the terminal when it is read.\<close>

definition demo_keys :: "((int \<times> int) \<times> key_event) list" where
  "demo_keys =
     [((24, 80), Key_down),
      ((24, 80), Key_edit (Some (str_of ''food''))),
      ((24, 80), Key_search (Some (str_of ''foo''))),
      ((24, 80), Key_next),
      ((10, 80), Key_resize),
      ((10, 80), Key_goto (Goto_number 3)),
      ((10, 80), Key_save None)]"

section \<open>The viewport: clamp\<close>

lemma clamp_fields:
  "lines (clamp st) = lines st" "window_h (clamp st) = window_h st"
  "search_matches (clamp st) = search_matches st" "match_index (clamp st) = match_index st"
  "search_term (clamp st) = search_term st" "modified (clamp st) = modified st"
  "trailing_nl (clamp st) = trailing_nl st"
  by (simp_all add: clamp_def Let_def)

lemma clamp_viewport_ok:
  assumes "window_h st \<ge> 1"
  shows "viewport_ok (clamp st)"
  using assms
  by (auto simp add: clamp_def viewport_ok_def Let_def total_lines_def max_def)

lemma clamp_fixes_ok:
  assumes "viewport_ok st"
  shows "clamp st = st"
  using assms
  by (auto simp add: clamp_def viewport_ok_def Let_def total_lines_def selected_index_def
      split: if_splits)

lemma clamp_pinned:
  assumes "window_h st \<ge> 1" and "total_lines st > 0"
    and "min (max (top_line st) 0) (max 0 (total_lines st - window_h st))
         + min (max (sel st) 0) (window_h st - 1) \<ge> total_lines st"
  shows "top_line (clamp st) = max 0 (total_lines st - 1 - (window_h st - 1))"
    and "selected_index (clamp st) = total_lines st - 1"
  using assms
  by (auto simp add: clamp_def Let_def selected_index_def max_def min_def split: if_splits)

text \<open>
  What \<open>clamp\<close> does with the range-limited values: \<open>top\<close> limited to
  \<open>0 \<dots> max 0 (L - H)\<close> and \<open>sel\<close> to \<open>0 \<dots> H - 1\<close>. When their sum is below \<open>L\<close> they are
  the result; their sum can reach \<open>L\<close> only when the buffer is shorter than the window.
\<close>

lemma clamp_limited:
  assumes "window_h st \<ge> 1"
    and "min (max (top_line st) 0) (max 0 (total_lines st - window_h st))
         + min (max (sel st) 0) (window_h st - 1) < total_lines st"
  shows "top_line (clamp st) = min (max (top_line st) 0) (max 0 (total_lines st - window_h st))"
    and "sel (clamp st) = min (max (sel st) 0) (window_h st - 1)"
  using assms
  by (auto simp add: clamp_def Let_def max_def min_def split: if_splits)

lemma clamp_pinned_short:
  assumes "window_h st \<ge> 1"
    and "min (max (top_line st) 0) (max 0 (total_lines st - window_h st))
         + min (max (sel st) 0) (window_h st - 1) \<ge> total_lines st"
  shows "total_lines st < window_h st"
  using assms by (auto simp add: max_def min_def split: if_splits)

text \<open>
  C1. For a buffer of \<open>L \<ge> 0\<close> lines and a window height \<open>H \<ge> 1\<close>, whatever \<open>top\<close> and
  \<open>sel\<close> were, one call of \<open>clamp\<close> gives \<open>0 \<le> top \<le> max 0 (L - H)\<close> and
  \<open>0 \<le> sel < H\<close>; if \<open>L > 0\<close> the selected index \<open>top + sel\<close> is below \<open>L\<close>, and if
  \<open>L = 0\<close> both are 0. \<open>top\<close> and \<open>sel\<close> are first limited to their ranges. When the
  selected index formed from the limited values still reaches \<open>L\<close> or more, which
  happens only for \<open>L < H\<close>, the selection is the last line \<open>L - 1\<close> and
  \<open>top = max 0 (L - 1 - (H - 1))\<close>; when it is below \<open>L\<close>, the limited values are the
  result. The buffer and the window height are untouched.
\<close>

theorem clamp_postcondition:
  assumes "H \<ge> 1" and "window_h st = H" and "total_lines st = L"
  shows "0 \<le> top_line (clamp st) \<and> top_line (clamp st) \<le> max 0 (L - H)
       \<and> 0 \<le> sel (clamp st) \<and> sel (clamp st) < H
       \<and> (L > 0 \<longrightarrow> top_line (clamp st) + sel (clamp st) < L)
       \<and> (L = 0 \<longrightarrow> top_line (clamp st) = 0 \<and> sel (clamp st) = 0)
       \<and> (L > 0 \<and> min (max (top_line st) 0) (max 0 (L - H)) + min (max (sel st) 0) (H - 1) \<ge> L
            \<longrightarrow> L < H
              \<and> top_line (clamp st) = max 0 (L - 1 - (H - 1))
              \<and> selected_index (clamp st) = L - 1)
       \<and> (min (max (top_line st) 0) (max 0 (L - H)) + min (max (sel st) 0) (H - 1) < L
            \<longrightarrow> top_line (clamp st) = min (max (top_line st) 0) (max 0 (L - H))
              \<and> sel (clamp st) = min (max (sel st) 0) (H - 1))
       \<and> lines (clamp st) = lines st \<and> window_h (clamp st) = H"
proof -
  have same: "total_lines (clamp st) = L" "window_h (clamp st) = H" "lines (clamp st) = lines st"
    using assms by (simp_all add: clamp_def Let_def total_lines_def)
  have "viewport_ok (clamp st)"
    using assms by (simp add: clamp_viewport_ok)
  then have inv: "0 \<le> top_line (clamp st)" "top_line (clamp st) \<le> max 0 (L - H)"
    "0 \<le> sel (clamp st)" "sel (clamp st) < H"
    "L > 0 \<longrightarrow> top_line (clamp st) + sel (clamp st) < L"
    "L = 0 \<longrightarrow> top_line (clamp st) = 0 \<and> sel (clamp st) = 0"
    by (simp_all add: viewport_ok_def same split: if_splits)
  have pin: "L > 0 \<and> min (max (top_line st) 0) (max 0 (L - H)) + min (max (sel st) 0) (H - 1) \<ge> L
            \<longrightarrow> L < H \<and> top_line (clamp st) = max 0 (L - 1 - (H - 1))
              \<and> selected_index (clamp st) = L - 1"
    using clamp_pinned [of st] clamp_pinned_short [of st] assms
    by (auto simp add: max_def min_def split: if_splits)
  have lim: "min (max (top_line st) 0) (max 0 (L - H)) + min (max (sel st) 0) (H - 1) < L
            \<longrightarrow> top_line (clamp st) = min (max (top_line st) 0) (max 0 (L - H))
              \<and> sel (clamp st) = min (max (sel st) 0) (H - 1)"
    using clamp_limited [of st] assms by blast
  from inv pin lim same show ?thesis by blast
qed

theorem clamp_postcondition_witness:
  "top_line (clamp tall_window_state) = 0
   \<and> sel (clamp tall_window_state) = 2
   \<and> selected_index (clamp tall_window_state) = 3 - 1
   \<and> top_line (clamp (demo_state\<lparr>top_line := 5, sel := 7\<rparr>)) = 1
   \<and> sel (clamp (demo_state\<lparr>top_line := 5, sel := 7\<rparr>)) = 1"
proof -
  have f: "window_h tall_window_state = 5" "total_lines tall_window_state = 3"
    "top_line tall_window_state = 5" "sel tall_window_state = 7"
    by (simp_all add: tall_window_state_def demo_state_def total_lines_def)
  from clamp_postcondition [of 5 tall_window_state 3] f
  have pinned: "top_line (clamp tall_window_state) = 0
     \<and> selected_index (clamp tall_window_state) = 3 - 1"
    by simp
  then have a: "top_line (clamp tall_window_state) = 0" "sel (clamp tall_window_state) = 2"
    "selected_index (clamp tall_window_state) = 3 - 1"
    by (simp_all add: selected_index_def)
  have g: "window_h (demo_state\<lparr>top_line := 5, sel := 7\<rparr>) = 2"
    "total_lines (demo_state\<lparr>top_line := 5, sel := 7\<rparr>) = 3"
    "top_line (demo_state\<lparr>top_line := 5, sel := 7\<rparr>) = 5"
    "sel (demo_state\<lparr>top_line := 5, sel := 7\<rparr>) = 7"
    by (simp_all add: demo_state_def total_lines_def)
  from clamp_postcondition [of 2 "demo_state\<lparr>top_line := 5, sel := 7\<rparr>" 3] g
  have b: "top_line (clamp (demo_state\<lparr>top_line := 5, sel := 7\<rparr>)) = 1
     \<and> sel (clamp (demo_state\<lparr>top_line := 5, sel := 7\<rparr>)) = 1"
    by simp
  from a b show ?thesis by simp
qed

text \<open>
  A selected index that reaches past the buffer before the call is not always pinned
  to the last line: with 100 lines, a window of 10 rows, \<open>top = 95\<close> and \<open>sel = 5\<close>
  (index 100), \<open>top\<close> is limited to 90, \<open>sel\<close> stays 5, and the selection is line 95,
  not line 99.
\<close>

theorem clamp_not_pinned:
  "total_lines long_buffer_state = 100
   \<and> window_h long_buffer_state = 10
   \<and> selected_index long_buffer_state = 100
   \<and> top_line (clamp long_buffer_state) = 90
   \<and> sel (clamp long_buffer_state) = 5
   \<and> selected_index (clamp long_buffer_state) = 95
   \<and> selected_index (clamp long_buffer_state) \<noteq> total_lines long_buffer_state - 1"
  by (simp add: long_buffer_state_def demo_state_def clamp_def Let_def total_lines_def
      selected_index_def)

text \<open>
  C9. \<open>clamp\<close> is idempotent: a second call right after the first changes neither
  \<open>top\<close> nor \<open>sel\<close> (nor anything else of the state).
\<close>

theorem clamp_idempotent:
  "clamp (clamp st) = clamp st"
proof (cases "window_h st \<le> 0")
  case True
  then show ?thesis by (simp add: clamp_def)
next
  case False
  then have "viewport_ok (clamp st)" by (simp add: clamp_viewport_ok)
  then show ?thesis by (rule clamp_fixes_ok)
qed

section \<open>Moving the selection\<close>

lemma key_down_same:
  "lines (key_down st) = lines st" "window_h (key_down st) = window_h st"
  "total_lines (key_down st) = total_lines st"
  by (simp_all add: key_down_def set_status_def total_lines_def)

lemma key_down_ok:
  assumes "viewport_ok st"
  shows "viewport_ok (key_down st)"
  using assms
  by (auto simp add: key_down_def set_status_def viewport_ok_def total_lines_def
      selected_index_def max_def split: if_splits)

lemma key_up_ok:
  assumes "viewport_ok st"
  shows "viewport_ok (key_up st)"
  using assms
  by (auto simp add: key_up_def set_status_def viewport_ok_def total_lines_def
      selected_index_def max_def split: if_splits)

lemma key_down_index:
  "selected_index (key_down st) =
     (if selected_index st + 1 < total_lines st then selected_index st + 1 else selected_index st)"
  by (simp add: key_down_def set_status_def selected_index_def)

lemma key_down_iter:
  assumes "selected_index st < total_lines st"
  shows "selected_index ((key_down ^^ k) st) = min (selected_index st + int k) (total_lines st - 1)
         \<and> total_lines ((key_down ^^ k) st) = total_lines st"
proof (induction k)
  case 0
  with assms show ?case by simp
next
  case (Suc k)
  then show ?case by (auto simp add: key_down_index key_down_same)
qed

lemma key_down_iter_ok:
  assumes "viewport_ok st"
  shows "viewport_ok ((key_down ^^ k) st)"
  using assms by (induction k) (simp_all add: key_down_ok)

lemma key_down_visits:
  assumes "top_line st = 0" and "sel st = 0" and "0 < total_lines st"
  shows "map (\<lambda>k. selected_index ((key_down ^^ k) st)) [0..<length (lines st)]
           = map int [0..<length (lines st)]"
proof (rule map_cong [OF refl])
  fix k assume "k \<in> set [0..<length (lines st)]"
  then have k: "int k < total_lines st" by (simp add: total_lines_def)
  have "selected_index st < total_lines st"
    using assms by (simp add: selected_index_def)
  from key_down_iter [OF this, of k] assms k
  show "selected_index ((key_down ^^ k) st) = int k"
    by (simp add: selected_index_def)
qed

text \<open>
  C5. In a state that satisfies the viewport invariant: the down key on the last line
  and the up key on the first line change only the status message; a move inside the
  window changes \<open>sel\<close> alone; a move at the edge of the window shifts \<open>top\<close> by one
  and leaves \<open>sel\<close> where it is; both keys keep the invariant. From \<open>top = 0\<close>,
  \<open>sel = 0\<close> over \<open>L\<close> lines with a window lower than \<open>L\<close>, the selected index after
  \<open>k\<close> down keys, for \<open>k = 0, \<dots>, L - 1\<close>, is \<open>k\<close>: every line once, in ascending
  order.
\<close>

theorem move_selection:
  "viewport_ok st \<longrightarrow>
     (selected_index st + 1 \<ge> total_lines st \<longrightarrow> key_down st = set_status st (Text []) ''info'')
   \<and> (selected_index st = 0 \<longrightarrow> key_up st = set_status st (Text []) ''info'')
   \<and> (selected_index st + 1 < total_lines st \<and> sel st + 1 < window_h st \<longrightarrow>
        key_down st = set_status (st\<lparr>sel := sel st + 1\<rparr>) (Text []) ''info'')
   \<and> (0 < sel st \<longrightarrow> key_up st = set_status (st\<lparr>sel := sel st - 1\<rparr>) (Text []) ''info'')
   \<and> (selected_index st + 1 < total_lines st \<and> sel st = window_h st - 1 \<longrightarrow>
        key_down st = set_status (st\<lparr>top_line := top_line st + 1\<rparr>) (Text []) ''info'')
   \<and> (sel st = 0 \<and> 0 < top_line st \<longrightarrow>
        key_up st = set_status (st\<lparr>top_line := top_line st - 1\<rparr>) (Text []) ''info'')
   \<and> viewport_ok (key_down st) \<and> viewport_ok (key_up st)
   \<and> (top_line st = 0 \<and> sel st = 0 \<and> window_h st < total_lines st \<longrightarrow>
        map (\<lambda>k. selected_index ((key_down ^^ k) st)) [0..<length (lines st)]
          = map int [0..<length (lines st)]
        \<and> (\<forall>k. viewport_ok ((key_down ^^ k) st)))"
proof
  assume ok: "viewport_ok st"
  have a: "selected_index st + 1 \<ge> total_lines st \<longrightarrow> key_down st = set_status st (Text []) ''info''"
    by (simp add: key_down_def)
  have b: "selected_index st = 0 \<longrightarrow> key_up st = set_status st (Text []) ''info''"
    using ok by (auto simp add: key_up_def viewport_ok_def selected_index_def split: if_splits)
  have c: "selected_index st + 1 < total_lines st \<and> sel st + 1 < window_h st \<longrightarrow>
        key_down st = set_status (st\<lparr>sel := sel st + 1\<rparr>) (Text []) ''info''"
    by (simp add: key_down_def)
  have d: "0 < sel st \<longrightarrow> key_up st = set_status (st\<lparr>sel := sel st - 1\<rparr>) (Text []) ''info''"
    by (simp add: key_up_def)
  have e: "selected_index st + 1 < total_lines st \<and> sel st = window_h st - 1 \<longrightarrow>
        key_down st = set_status (st\<lparr>top_line := top_line st + 1\<rparr>) (Text []) ''info''"
    by (simp add: key_down_def)
  have f: "sel st = 0 \<and> 0 < top_line st \<longrightarrow>
        key_up st = set_status (st\<lparr>top_line := top_line st - 1\<rparr>) (Text []) ''info''"
    by (simp add: key_up_def)
  have g: "viewport_ok (key_down st)" "viewport_ok (key_up st)"
    using ok by (simp_all add: key_down_ok key_up_ok)
  have h: "top_line st = 0 \<and> sel st = 0 \<and> window_h st < total_lines st \<longrightarrow>
        map (\<lambda>k. selected_index ((key_down ^^ k) st)) [0..<length (lines st)]
          = map int [0..<length (lines st)]
        \<and> (\<forall>k. viewport_ok ((key_down ^^ k) st))"
  proof
    assume s: "top_line st = 0 \<and> sel st = 0 \<and> window_h st < total_lines st"
    with ok have "0 < total_lines st" by (simp add: viewport_ok_def)
    with s key_down_visits [of st] key_down_iter_ok [OF ok]
    show "map (\<lambda>k. selected_index ((key_down ^^ k) st)) [0..<length (lines st)]
          = map int [0..<length (lines st)]
        \<and> (\<forall>k. viewport_ok ((key_down ^^ k) st))" by simp
  qed
  from a b c d e f g h
  show "(selected_index st + 1 \<ge> total_lines st \<longrightarrow> key_down st = set_status st (Text []) ''info'')
   \<and> (selected_index st = 0 \<longrightarrow> key_up st = set_status st (Text []) ''info'')
   \<and> (selected_index st + 1 < total_lines st \<and> sel st + 1 < window_h st \<longrightarrow>
        key_down st = set_status (st\<lparr>sel := sel st + 1\<rparr>) (Text []) ''info'')
   \<and> (0 < sel st \<longrightarrow> key_up st = set_status (st\<lparr>sel := sel st - 1\<rparr>) (Text []) ''info'')
   \<and> (selected_index st + 1 < total_lines st \<and> sel st = window_h st - 1 \<longrightarrow>
        key_down st = set_status (st\<lparr>top_line := top_line st + 1\<rparr>) (Text []) ''info'')
   \<and> (sel st = 0 \<and> 0 < top_line st \<longrightarrow>
        key_up st = set_status (st\<lparr>top_line := top_line st - 1\<rparr>) (Text []) ''info'')
   \<and> viewport_ok (key_down st) \<and> viewport_ok (key_up st)
   \<and> (top_line st = 0 \<and> sel st = 0 \<and> window_h st < total_lines st \<longrightarrow>
        map (\<lambda>k. selected_index ((key_down ^^ k) st)) [0..<length (lines st)]
          = map int [0..<length (lines st)]
        \<and> (\<forall>k. viewport_ok ((key_down ^^ k) st)))"
    by blast
qed

theorem move_selection_witness:
  "viewport_ok demo_state
   \<and> key_up demo_state = set_status demo_state (Text []) ''info''
   \<and> key_down demo_state = set_status (demo_state\<lparr>sel := 1\<rparr>) (Text []) ''info''
   \<and> key_down (key_down demo_state) = set_status (demo_state\<lparr>top_line := 1, sel := 1\<rparr>) (Text []) ''info''
   \<and> map (\<lambda>k. selected_index ((key_down ^^ k) demo_state)) [0..<3] = [0, 1, 2]"
proof -
  have ok: "viewport_ok demo_state"
    by (simp add: viewport_ok_def demo_state_def total_lines_def)
  have len: "length (lines demo_state) = 3"
    by (simp add: demo_state_def)
  have up: "[0..<3] = [0, 1, 2]" by (simp add: upt_rec)
  have pre: "top_line demo_state = 0" "sel demo_state = 0"
    "window_h demo_state < total_lines demo_state"
    by (simp_all add: demo_state_def total_lines_def)
  from move_selection [of demo_state] ok pre
  have "map (\<lambda>k. selected_index ((key_down ^^ k) demo_state)) [0..<length (lines demo_state)]
          = map int [0..<length (lines demo_state)]"
    by blast
  then have "map (\<lambda>k. selected_index ((key_down ^^ k) demo_state)) [0..<3] = map int [0..<3]"
    by (simp only: len)
  then have visits: "map (\<lambda>k. selected_index ((key_down ^^ k) demo_state)) [0..<3] = [0, 1, 2]"
    by (simp add: up)
  have rest: "key_up demo_state = set_status demo_state (Text []) ''info''"
    "key_down demo_state = set_status (demo_state\<lparr>sel := 1\<rparr>) (Text []) ''info''"
    "key_down (key_down demo_state) = set_status (demo_state\<lparr>top_line := 1, sel := 1\<rparr>) (Text []) ''info''"
    by (simp_all add: key_up_def key_down_def demo_state_def set_status_def selected_index_def
        total_lines_def)
  from ok visits rest show ?thesis by simp
qed

section \<open>Highlight spans\<close>

lemma greedy_spans_skip:
  assumes "greedy_spans low t n (Suc i) sp" and "slice low i (i + length t) \<noteq> t"
  shows "greedy_spans low t n i sp"
proof -
  have widen: "\<forall>k \<in> {i ..< m}. slice low k (k + length t) \<noteq> t"
    if "\<forall>k \<in> {Suc i ..< m}. slice low k (k + length t) \<noteq> t" for m
  proof
    fix k assume k: "k \<in> {i ..< m}"
    show "slice low k (k + length t) \<noteq> t"
    proof (cases "k = i")
      case True
      with assms(2) show ?thesis by simp
    next
      case False
      with k have "k \<in> {Suc i ..< m}" by auto
      with that show ?thesis by blast
    qed
  qed
  show ?thesis
  proof (cases sp)
    case Nil
    with assms(1) widen show ?thesis by simp
  next
    case (Cons p rest)
    obtain s e where p: "p = (s, e)" by (cases p)
    from assms(1) Cons p have g: "Suc i \<le> s" "e = s + length t" "e \<le> n" "slice low s e = t"
      "\<forall>k \<in> {Suc i ..< s}. slice low k (k + length t) \<noteq> t" "greedy_spans low t n e rest"
      by auto
    from g(1) have le: "i \<le> s" by simp
    note w = widen [OF g(5)]
    show ?thesis
      unfolding Cons p greedy_spans.simps
      by (intro conjI le g(2) g(3) g(4) w g(6))
  qed
qed

lemma greedy_spans_within:
  "greedy_spans low t n cur sp \<Longrightarrow> spans_within n cur sp"
  by (induction sp arbitrary: cur) auto

lemma positions_loop_greedy:
  assumes "t \<noteq> []"
  shows "\<exists>sp. positions_loop line low t i res = Some (res @ sp)
              \<and> greedy_spans low t (length line) i sp"
proof (induction "Suc (length line) - i" arbitrary: i res rule: less_induct)
  case less
  let ?n = "length line" and ?lt = "length t"
  from assms have lt: "0 < ?lt" by simp
  show ?case
  proof (cases "i + ?lt \<le> ?n")
    case False
    then have "positions_loop line low t i res = Some (res @ [])"
      by (subst positions_loop.simps) simp
    moreover from False have "greedy_spans low t ?n i []" by simp
    ultimately show ?thesis by blast
  next
    case True
    then have guard: "int i \<le> int ?n - int ?lt" by simp
    show ?thesis
    proof (cases "slice low i (i + ?lt) = t")
      case match: True
      from True lt have "Suc ?n - (i + ?lt) < Suc ?n - i" by linarith
      from less [OF this, of "res @ [(i, i + ?lt)]"] obtain sp where
        sp: "positions_loop line low t (i + ?lt) (res @ [(i, i + ?lt)])
               = Some ((res @ [(i, i + ?lt)]) @ sp)"
          "greedy_spans low t ?n (i + ?lt) sp" by blast
      have "positions_loop line low t i res
              = positions_loop line low t (i + ?lt) (res @ [(i, i + ?lt)])"
        using guard match by (subst positions_loop.simps) simp
      with sp(1) have "positions_loop line low t i res = Some (res @ (i, i + ?lt) # sp)"
        by simp
      moreover from sp(2) True match
      have "greedy_spans low t ?n i ((i, i + ?lt) # sp)" by simp
      ultimately show ?thesis by blast
    next
      case nomatch: False
      from True lt have "Suc ?n - (i + 1) < Suc ?n - i" by linarith
      from less [OF this, of res] obtain sp where
        sp: "positions_loop line low t (i + 1) res = Some (res @ sp)"
          "greedy_spans low t ?n (i + 1) sp" by blast
      have "positions_loop line low t i res = positions_loop line low t (i + 1) res"
        using guard nomatch by (subst positions_loop.simps) simp
      with sp(1) have "positions_loop line low t i res = Some (res @ sp)" by simp
      moreover from sp(2) nomatch have "greedy_spans low t ?n i sp"
        by (simp add: greedy_spans_skip)
      ultimately show ?thesis by blast
    qed
  qed
qed

lemma find_positions_greedy:
  assumes "tm \<noteq> []" and "lower tm \<noteq> []"
  shows "\<exists>sp. find_positions lower line (Some tm) = Some sp
              \<and> greedy_spans (lower line) (lower tm) (length line) 0 sp"
  using assms positions_loop_greedy [of "lower tm" line "lower line" 0 "[]"]
  by (simp add: find_positions_def)

lemma find_positions_no_term:
  "find_positions lower line None = Some []" "find_positions lower line (Some []) = Some []"
  by (simp_all add: find_positions_def)

lemma segments_concat:
  assumes "spans_within (length line) cur sp" and "cur \<le> length line"
  shows "concat (map snd (line_segments line cur sp)) = drop cur line"
  using assms
proof (induction sp arbitrary: cur)
  case Nil
  then show ?case by simp
next
  case (Cons p rest)
  obtain s e where p: "p = (s, e)" by (cases p)
  with Cons.prems have ord: "cur \<le> s" "s \<le> e" "e \<le> length line"
    and rest: "spans_within (length line) e rest" by simp_all
  from Cons.IH [OF rest ord(3)]
  have tail: "concat (map snd (line_segments line e rest)) = drop e line" .
  have a: "slice line cur s @ drop s line = drop cur line"
    using ord by (simp add: slice_def) (metis add_diff_inverse_nat append_take_drop_id drop_drop leD add.commute)
  have b: "slice line s e @ drop e line = drop s line"
    using ord by (simp add: slice_def) (metis add_diff_inverse_nat append_take_drop_id drop_drop leD add.commute)
  have "concat (map snd (line_segments line cur (p # rest)))
          = slice line cur s @ slice line s e @ drop e line"
    by (simp add: p tail)
  also have "\<dots> = drop cur line" by (simp add: a b)
  finally show ?case .
qed

lemma py_lower_nonempty: "s \<noteq> [] \<Longrightarrow> py_lower s \<noteq> []"
  by (cases s) (simp_all add: py_lower_def lower_cp_def)

text \<open>
  C10. Whatever the line and the term, \<open>find_positions\<close> returns, and its spans are in
  ascending order, do not overlap (each starts at or after the end of the one before)
  and lie within \<open>0 \<dots> len(line)\<close>; cutting the line along them as \<open>draw\<close> does and
  concatenating the pieces in order gives the line back. The only thing asked of
  \<open>lower\<close> is that it does not turn a non-empty term into the empty string (Python's does
  not); the loop would not end otherwise.
\<close>

theorem spans_round_trip:
  assumes "\<And>s. s \<noteq> [] \<Longrightarrow> lower s \<noteq> []"
  shows "\<exists>sp. find_positions lower line term = Some sp
              \<and> spans_within (length line) 0 sp
              \<and> concat (map snd (line_segments line 0 sp)) = line"
proof -
  have "\<exists>sp. find_positions lower line term = Some sp \<and> spans_within (length line) 0 sp"
  proof (cases "term")
    case None
    then show ?thesis by (simp add: find_positions_no_term)
  next
    case (Some tm)
    show ?thesis
    proof (cases "tm = []")
      case True
      with Some show ?thesis by (simp add: find_positions_no_term)
    next
      case False
      with assms have "lower tm \<noteq> []" by simp
      from find_positions_greedy [of tm lower line, OF False this] Some
      show ?thesis by (auto dest: greedy_spans_within)
    qed
  qed
  then obtain sp where sp: "find_positions lower line term = Some sp"
    "spans_within (length line) 0 sp" by blast
  from segments_concat [OF sp(2)] have "concat (map snd (line_segments line 0 sp)) = line"
    by simp
  with sp show ?thesis by blast
qed

lemma find_positions_xAay: "find_positions py_lower (str_of ''xAay'') (Some (str_of ''a'')) = Some [(1, 2), (2, 3)]"
  by code_simp

lemma line_segments_xAay: "line_segments (str_of ''xAay'') 0 [(1, 2), (2, 3)]
     = [(False, str_of ''x''), (True, str_of ''A''), (True, str_of ''a''), (False, str_of ''y'')]"
  by code_simp

theorem spans_round_trip_witness:
  "find_positions py_lower (str_of ''xAay'') (Some (str_of ''a'')) = Some [(1, 2), (2, 3)]
   \<and> spans_within (length (str_of ''xAay'')) 0 [(1, 2), (2, 3)]
   \<and> concat (map snd (line_segments (str_of ''xAay'') 0 [(1, 2), (2, 3)])) = str_of ''xAay''"
proof -
  from spans_round_trip [of py_lower "str_of ''xAay''" "Some (str_of ''a'')", OF py_lower_nonempty]
  obtain sp where sp: "find_positions py_lower (str_of ''xAay'') (Some (str_of ''a'')) = Some sp"
    "spans_within (length (str_of ''xAay'')) 0 sp"
    "concat (map snd (line_segments (str_of ''xAay'') 0 sp)) = str_of ''xAay''" by blast
  from sp(1) have "sp = [(1, 2), (2, 3)]" by (simp add: find_positions_xAay)
  with sp find_positions_xAay show ?thesis by simp
qed

text \<open>
  C4. The spans are found in the lowered line \<open>low\<close> but the loop runs up to
  \<open>len(line) - lt\<close> and the caller cuts \<open>line\<close> with them. Where lowering changes the
  length they are not the occurrences of the term: for the line U+0130 \<open>a b\<close> (code
  points 304, 97, 98) and the term \<open>a\<close>, the lowered line is \<open>i\<close> U+0307 \<open>a b\<close>, the
  span returned is \<open>(2, 3)\<close>, and that range of the line is \<open>b\<close>, while the \<open>a\<close> at
  \<open>(1, 2)\<close> is not returned; for the line U+0130 \<open>a\<close> no span is returned although the
  lowered line contains the term. \<open>find_positions_greedy\<close> above is what the loop does in
  general: the greedy, non-overlapping scan of \<open>low\<close> from the left, over the start
  positions \<open>k\<close> with \<open>k + lt \<le> len(line)\<close>; \<open>find_positions_aaaa\<close> below is the example
  of the specification.
\<close>

theorem find_positions_shifted_span:
  "find_positions py_lower [304, 97, 98] (Some [97]) = Some [(2, 3)]
   \<and> slice ([304, 97, 98] :: str) 2 3 = [98]
   \<and> py_lower [98] \<noteq> py_lower [97]
   \<and> slice ([304, 97, 98] :: str) 1 2 = [97]
   \<and> find_positions py_lower [304, 97] (Some [97]) = Some []
   \<and> sublist (py_lower [97]) (py_lower [304, 97])"
  by code_simp

lemma find_positions_aaaa:
  "find_positions py_lower (str_of ''aaaa'') (Some (str_of ''aa'')) = Some [(0, 2), (2, 4)]"
  by code_simp

section \<open>Recomputing the search\<close>

lemma collect_matches_filter:
  "collect_matches lower t i lns acc =
     acc @ map (\<lambda>k. i + k) (filter (\<lambda>k. sublist t (lower (lns ! k))) [0..<length lns])"
proof (induction lns arbitrary: i acc)
  case Nil
  then show ?case by simp
next
  case (Cons ln rest)
  have up: "[0..<length (ln # rest)] = 0 # map Suc [0..<length rest]"
    by (simp add: upt_conv_Cons map_Suc_upt del: upt_Suc)
  show ?case
    by (simp only: collect_matches.simps Cons.IH up)
      (simp add: filter_map comp_def)
qed

lemma collect_matches_all:
  "collect_matches lower t 0 lns [] = filter (\<lambda>k. sublist t (lower (lns ! k))) [0..<length lns]"
  by (simp add: collect_matches_filter)

lemma first_at_or_after_none:
  assumes "\<forall>li \<in> set ms. int li < s"
  shows "first_at_or_after s idx ms = 0"
  using assms by (induction ms arbitrary: idx) auto

lemma first_at_or_after_some:
  assumes "\<exists>li \<in> set ms. s \<le> int li"
  shows "\<exists>k < length ms. first_at_or_after s idx ms = int (idx + k)
           \<and> s \<le> int (ms ! k) \<and> (\<forall>j < k. int (ms ! j) < s)"
  using assms
proof (induction ms arbitrary: idx)
  case Nil
  then show ?case by simp
next
  case (Cons li rest)
  show ?case
  proof (cases "s \<le> int li")
    case True
    then have "first_at_or_after s idx (li # rest) = int (idx + 0)
           \<and> s \<le> int ((li # rest) ! 0) \<and> (\<forall>j < 0. int ((li # rest) ! j) < s)" by simp
    then show ?thesis by blast
  next
    case False
    with Cons.prems have "\<exists>x \<in> set rest. s \<le> int x" by auto
    from Cons.IH [OF this, of "idx + 1"] obtain k where k: "k < length rest"
      "first_at_or_after s (idx + 1) rest = int (idx + 1 + k)"
      "s \<le> int (rest ! k)" "\<forall>j < k. int (rest ! j) < s" by blast
    have "\<forall>j < Suc k. int ((li # rest) ! j) < s"
    proof (intro allI impI)
      fix j assume "j < Suc k"
      with k(4) False show "int ((li # rest) ! j) < s" by (cases j) auto
    qed
    with k False have "Suc k < length (li # rest)
        \<and> first_at_or_after s idx (li # rest) = int (idx + Suc k)
        \<and> s \<le> int ((li # rest) ! Suc k) \<and> (\<forall>j < Suc k. int ((li # rest) ! j) < s)"
      by simp
    then show ?thesis by blast
  qed
qed

lemma recompute_no_term:
  assumes "search_term st = None \<or> search_term st = Some []"
  shows "recompute_search lower st = st\<lparr>search_matches := [], match_index := - 1\<rparr>"
  using assms by (auto simp add: recompute_search_def)

lemma recompute_matches:
  assumes "search_term st = Some tm" and "tm \<noteq> []"
  shows "search_matches (recompute_search lower st)
           = filter (\<lambda>i. sublist (lower tm) (lower (lines st ! i))) [0..<length (lines st)]"
  using assms by (simp add: recompute_search_def Let_def collect_matches_all)

lemma recompute_index:
  assumes "search_term st = Some tm" and "tm \<noteq> []"
  shows "match_index (recompute_search lower st) =
           (if search_matches (recompute_search lower st) = [] then - 1
            else first_at_or_after (selected_index st) 0 (search_matches (recompute_search lower st)))"
  using assms by (simp add: recompute_search_def Let_def)

lemma recompute_rest:
  "recompute_search lower st =
     st\<lparr>search_matches := search_matches (recompute_search lower st),
        match_index := match_index (recompute_search lower st)\<rparr>"
  by (simp add: recompute_search_def Let_def split: option.splits)

text \<open>
  What \<open>recompute_search\<close> computes: with no term or the empty term the match list is empty
  and the cursor is "none" (\<open>-1\<close>). Otherwise the match list is exactly the indices
  \<open>i\<close> of the lines whose lowered text contains the lowered term as a substring, in
  ascending order; the cursor is the list position of the first match at or after the
  selected index \<open>top + sel\<close>, 0 when every match lies before it, and \<open>-1\<close> when no
  line matches. Nothing else of the state changes.
\<close>

theorem recompute_search_result:
  assumes "st' = recompute_search lower st"
  shows "(search_term st = None \<or> search_term st = Some [] \<longrightarrow>
            search_matches st' = [] \<and> match_index st' = - 1)
       \<and> (\<forall>tm. search_term st = Some tm \<and> tm \<noteq> [] \<longrightarrow>
            search_matches st'
              = filter (\<lambda>i. sublist (lower tm) (lower (lines st ! i))) [0..<length (lines st)]
          \<and> sorted (search_matches st') \<and> distinct (search_matches st')
          \<and> (search_matches st' = [] \<longrightarrow> match_index st' = - 1)
          \<and> ((\<exists>li \<in> set (search_matches st'). selected_index st \<le> int li) \<longrightarrow>
                0 \<le> match_index st' \<and> nat (match_index st') < length (search_matches st')
              \<and> selected_index st \<le> int (search_matches st' ! nat (match_index st'))
              \<and> (\<forall>j < nat (match_index st'). int (search_matches st' ! j) < selected_index st))
          \<and> (search_matches st' \<noteq> [] \<and> (\<forall>li \<in> set (search_matches st'). int li < selected_index st) \<longrightarrow>
                match_index st' = 0))
       \<and> st\<lparr>search_matches := search_matches st', match_index := match_index st'\<rparr> = st'"
proof (intro conjI allI impI)
  assume "search_term st = None \<or> search_term st = Some []"
  then show "search_matches st' = []" "match_index st' = - 1"
    by (simp_all add: assms recompute_no_term)
next
  fix tm assume tm: "search_term st = Some tm \<and> tm \<noteq> []"
  then show ms: "search_matches st'
      = filter (\<lambda>i. sublist (lower tm) (lower (lines st ! i))) [0..<length (lines st)]"
    by (simp add: assms recompute_matches)
  then show "sorted (search_matches st')" "distinct (search_matches st')"
    by (simp_all add: sorted_wrt_filter)
  have mi: "match_index st' =
           (if search_matches st' = [] then - 1
            else first_at_or_after (selected_index st) 0 (search_matches st'))"
    using tm recompute_index [of st tm lower] by (simp add: assms)
  {
    assume "search_matches st' = []"
    then show "match_index st' = - 1" by (simp add: mi)
  }
  {
    assume ex: "\<exists>li \<in> set (search_matches st'). selected_index st \<le> int li"
    then have ne: "search_matches st' \<noteq> []" by auto
    from first_at_or_after_some [OF ex, of 0] obtain k where k: "k < length (search_matches st')"
      "first_at_or_after (selected_index st) 0 (search_matches st') = int (0 + k)"
      "selected_index st \<le> int (search_matches st' ! k)"
      "\<forall>j < k. int (search_matches st' ! j) < selected_index st" by blast
    from k(2) ne mi have eq: "match_index st' = int k" by simp
    from eq show "0 \<le> match_index st'" by simp
    from eq k(1) show "nat (match_index st') < length (search_matches st')" by simp
    from eq k(3) show "selected_index st \<le> int (search_matches st' ! nat (match_index st'))" by simp
    fix j assume "j < nat (match_index st')"
    with eq k(4) show "int (search_matches st' ! j) < selected_index st" by simp
  }
  {
    assume "search_matches st' \<noteq> [] \<and> (\<forall>li \<in> set (search_matches st'). int li < selected_index st)"
    then show "match_index st' = 0"
      by (simp add: mi first_at_or_after_none)
  }
next
  show "st\<lparr>search_matches := search_matches st', match_index := match_index st'\<rparr> = st'"
    unfolding assms by (rule recompute_rest [symmetric])
qed

lemma demo_lines_contain_foo:
  "sublist (py_lower (str_of ''Foo'')) (py_lower (str_of ''foo bar''))"
  "sublist (py_lower (str_of ''Foo'')) (py_lower (str_of ''baz foo''))"
  "\<not> sublist (py_lower (str_of ''Foo'')) (py_lower (str_of ''qux''))"
  by code_simp+

theorem recompute_search_result_demo:
  "search_matches (recompute_search py_lower demo_term_state) = [0, 1]
   \<and> match_index (recompute_search py_lower demo_term_state) = 1
   \<and> search_matches (recompute_search py_lower demo_state) = []
   \<and> match_index (recompute_search py_lower demo_state) = - 1"
proof -
  let ?R = "recompute_search py_lower demo_term_state"
  have f: "search_term demo_term_state = Some (str_of ''Foo'')" "str_of ''Foo'' \<noteq> []"
    by (simp_all add: demo_term_state_def demo_state_def str_of_def)
  have sel: "selected_index demo_term_state = 1"
    by (simp add: demo_term_state_def demo_state_def selected_index_def)
  have lns: "lines demo_term_state = [str_of ''foo bar'', str_of ''baz foo'', str_of ''qux'']"
    by (simp add: demo_term_state_def demo_state_def)
  have up: "[0..<length [str_of ''foo bar'', str_of ''baz foo'', str_of ''qux'']] = [0, 1, 2]"
    by (simp add: upt_rec)
  note r = recompute_search_result [OF refl, of demo_term_state py_lower]
  note r2 = r [THEN conjunct2, THEN conjunct1, rule_format, OF conjI, OF f]
  have ms: "search_matches ?R = [0, 1]"
    using r2 [THEN conjunct1] by (simp only: lns up) (simp add: demo_lines_contain_foo)
  have "\<exists>li \<in> set (search_matches ?R). selected_index demo_term_state \<le> int li"
    by (simp add: ms sel)
  from r2 [THEN conjunct2, THEN conjunct2, THEN conjunct2, THEN conjunct2, THEN conjunct1,
      rule_format, OF this]
  have "0 \<le> match_index ?R \<and> nat (match_index ?R) < 2
      \<and> 1 \<le> int ([0, 1] ! nat (match_index ?R))"
    by (simp add: ms sel)
  then have mi: "match_index ?R = 1"
    by (cases "nat (match_index ?R)") auto
  have "search_term demo_state = None \<or> search_term demo_state = Some []"
    by (simp add: demo_state_def)
  from recompute_search_result [OF refl, of demo_state py_lower, THEN conjunct1, rule_format, OF this]
  have e: "search_matches (recompute_search py_lower demo_state) = []
      \<and> match_index (recompute_search py_lower demo_state) = - 1" .
  from ms mi e show ?thesis by simp
qed

text \<open>
  C2. The match list is not always the list of the lines that contain the term without
  regard to case: the test is \<open>term.lower() in line.lower()\<close>, and \<open>str.lower\<close> turns the
  capital sigma U+03A3 at the end of the term (omicron, delta, omicron, sigma, in
  capitals) into the final sigma U+03C2 and the same letter inside the line (the term
  followed by eta, mu, alpha) into the small sigma U+03C3. The line contains the term
  letter for letter, and \<open>recompute_search\<close> leaves the match list empty and the cursor
  at "none". \<open>recompute_search_result\<close> above is what holds on the code for every line
  and term.
\<close>

theorem recompute_search_final_sigma:
  "search_term greek_state = Some [927, 916, 927, 931]
   \<and> lines greek_state = [[927, 916, 927, 931, 919, 924, 913]]
   \<and> sublist [927, 916, 927, 931] ([927, 916, 927, 931, 919, 924, 913] :: str)
   \<and> py_lower [927, 916, 927, 931] = [959, 948, 959, 962]
   \<and> py_lower [927, 916, 927, 931, 919, 924, 913] = [959, 948, 959, 963, 951, 956, 945]
   \<and> search_matches (recompute_search py_lower greek_state) = []
   \<and> match_index (recompute_search py_lower greek_state) = - 1"
  by code_simp

section \<open>Cycling through the matches\<close>

lemma goto_matches_same: "search_matches (goto_search_match st fw) = search_matches st"
  by (simp add: goto_search_match_def set_status_def Let_def clamp_fields)

lemma goto_match_index:
  assumes "search_matches st \<noteq> []"
  shows "match_index (goto_search_match st fw) =
          (if match_index st = - 1 then 0
           else (match_index st + (if fw then 1 else - 1)) mod int (length (search_matches st)))"
  using assms by (simp add: goto_search_match_def set_status_def Let_def clamp_fields)

lemma goto_empty:
  assumes "search_matches st = []"
  shows "goto_search_match st fw = st\<lparr>status_msg := Text ''No matches'', status_type := ''err''\<rparr>"
  using assms by (simp add: goto_search_match_def set_status_def)

lemma goto_forward_iter:
  assumes "search_matches st \<noteq> []" and "0 \<le> match_index st"
    and "match_index st < int (length (search_matches st))"
  shows "match_index (((\<lambda>s. goto_search_match s True) ^^ k) st)
           = (match_index st + int k) mod int (length (search_matches st))
         \<and> search_matches (((\<lambda>s. goto_search_match s True) ^^ k) st) = search_matches st"
proof (induction k)
  case 0
  with assms show ?case by simp
next
  case (Suc k)
  let ?s = "((\<lambda>s. goto_search_match s True) ^^ k) st"
  let ?N = "int (length (search_matches st))"
  from Suc have mi: "match_index ?s = (match_index st + int k) mod ?N"
    and ms: "search_matches ?s = search_matches st" by simp_all
  from assms have "?N > 0" by simp
  then have "0 \<le> match_index ?s" using mi by simp
  then have "match_index ?s \<noteq> - 1" by simp
  then have "match_index (goto_search_match ?s True) = (match_index ?s + 1) mod ?N"
    using goto_match_index [of ?s True] assms ms by simp
  also have "\<dots> = ((match_index st + int k) mod ?N + 1) mod ?N"
    by (simp only: mi)
  also have "\<dots> = (match_index st + int k + 1) mod ?N"
    by (rule mod_add_left_eq)
  also have "\<dots> = (match_index st + int (Suc k)) mod ?N"
    by (simp add: ac_simps)
  finally show ?case by (simp add: goto_matches_same ms)
qed

lemma goto_inverse:
  assumes "search_matches st \<noteq> []" and "0 \<le> match_index st"
    and "match_index st < int (length (search_matches st))"
  shows "match_index (goto_search_match (goto_search_match st True) False) = match_index st"
    and "match_index (goto_search_match (goto_search_match st False) True) = match_index st"
proof -
  let ?N = "int (length (search_matches st))"
  let ?m = "match_index st"
  from assms have N: "?N > 0" and ne: "?m \<noteq> - 1" by simp_all
  have f: "match_index (goto_search_match st True) = (?m + 1) mod ?N"
    using goto_match_index [of st True] assms ne by simp
  have b: "match_index (goto_search_match st False) = (?m - 1) mod ?N"
    using goto_match_index [of st False] assms ne by simp
  have fne: "(?m + 1) mod ?N \<noteq> - 1" and bne: "(?m - 1) mod ?N \<noteq> - 1"
    using N by (smt (verit) pos_mod_sign)+
  have "match_index (goto_search_match (goto_search_match st True) False)
          = ((?m + 1) mod ?N - 1) mod ?N"
    using goto_match_index [of "goto_search_match st True" False] assms f fne
    by (simp add: goto_matches_same)
  also have "\<dots> = ?m mod ?N" by (simp add: mod_diff_left_eq)
  also have "\<dots> = ?m" using assms by simp
  finally show "match_index (goto_search_match (goto_search_match st True) False) = ?m" .
  have "match_index (goto_search_match (goto_search_match st False) True)
          = ((?m - 1) mod ?N + 1) mod ?N"
    using goto_match_index [of "goto_search_match st False" True] assms b bne
    by (simp add: goto_matches_same)
  also have "\<dots> = ?m mod ?N" by (simp add: mod_add_left_eq)
  also have "\<dots> = ?m" using assms by simp
  finally show "match_index (goto_search_match (goto_search_match st False) True) = ?m" .
qed

text \<open>
  C3. With no matches, \<open>goto_search_match\<close> changes the status message and nothing
  else. With matches and the cursor at "none" (\<open>-1\<close>) the cursor becomes 0; otherwise it
  moves by \<open>+1\<close> or \<open>-1\<close> modulo the number of matches, the result lying in
  \<open>0 \<le> \<dots> < N\<close> in both directions. The match list is not changed. From a cursor
  inside the list, \<open>N\<close> forward steps come back to the same match index, and a
  backward step undoes a forward one (and the other way round).
\<close>

theorem advance_cycles:
  "(search_matches st = [] \<longrightarrow>
      goto_search_match st fw = st\<lparr>status_msg := Text ''No matches'', status_type := ''err''\<rparr>)
   \<and> (search_matches st \<noteq> [] \<and> match_index st = - 1 \<longrightarrow>
      match_index (goto_search_match st fw) = 0)
   \<and> (search_matches st \<noteq> [] \<and> match_index st \<noteq> - 1 \<longrightarrow>
      match_index (goto_search_match st True)
        = (match_index st + 1) mod int (length (search_matches st))
      \<and> match_index (goto_search_match st False)
        = (match_index st - 1) mod int (length (search_matches st))
      \<and> 0 \<le> match_index (goto_search_match st fw)
      \<and> match_index (goto_search_match st fw) < int (length (search_matches st)))
   \<and> search_matches (goto_search_match st fw) = search_matches st
   \<and> (0 \<le> match_index st \<and> match_index st < int (length (search_matches st)) \<longrightarrow>
      match_index (((\<lambda>s. goto_search_match s True) ^^ length (search_matches st)) st)
        = match_index st
      \<and> match_index (goto_search_match (goto_search_match st True) False) = match_index st
      \<and> match_index (goto_search_match (goto_search_match st False) True) = match_index st)"
proof -
  let ?N = "int (length (search_matches st))"
  have a: "search_matches st = [] \<longrightarrow>
      goto_search_match st fw = st\<lparr>status_msg := Text ''No matches'', status_type := ''err''\<rparr>"
    by (simp add: goto_empty)
  have b: "search_matches st \<noteq> [] \<and> match_index st = - 1 \<longrightarrow>
      match_index (goto_search_match st fw) = 0"
    by (simp add: goto_match_index)
  have c: "search_matches st \<noteq> [] \<and> match_index st \<noteq> - 1 \<longrightarrow>
      match_index (goto_search_match st True) = (match_index st + 1) mod ?N
      \<and> match_index (goto_search_match st False) = (match_index st - 1) mod ?N
      \<and> 0 \<le> match_index (goto_search_match st fw)
      \<and> match_index (goto_search_match st fw) < ?N"
    by (simp add: goto_match_index)
  have d: "0 \<le> match_index st \<and> match_index st < ?N \<longrightarrow>
      match_index (((\<lambda>s. goto_search_match s True) ^^ length (search_matches st)) st)
        = match_index st"
  proof
    assume h: "0 \<le> match_index st \<and> match_index st < ?N"
    then have ne: "search_matches st \<noteq> []" by auto
    from goto_forward_iter [OF ne, of "length (search_matches st)"] h
    show "match_index (((\<lambda>s. goto_search_match s True) ^^ length (search_matches st)) st)
        = match_index st" by simp
  qed
  have e: "0 \<le> match_index st \<and> match_index st < ?N \<longrightarrow>
      match_index (goto_search_match (goto_search_match st True) False) = match_index st
      \<and> match_index (goto_search_match (goto_search_match st False) True) = match_index st"
  proof
    assume h: "0 \<le> match_index st \<and> match_index st < ?N"
    then have ne: "search_matches st \<noteq> []" by auto
    from goto_inverse [OF ne] h
    show "match_index (goto_search_match (goto_search_match st True) False) = match_index st
      \<and> match_index (goto_search_match (goto_search_match st False) True) = match_index st"
      by simp
  qed
  from a b c d e show ?thesis by (simp add: goto_matches_same)
qed

theorem advance_cycles_witness:
  "match_index (goto_search_match demo_search_state True) = 0
   \<and> match_index (goto_search_match demo_search_state False) = 0
   \<and> match_index (((\<lambda>s. goto_search_match s True) ^^ 2) demo_search_state) = 1
   \<and> match_index (goto_search_match (goto_search_match demo_search_state True) False) = 1
   \<and> match_index (goto_search_match (demo_search_state\<lparr>match_index := - 1\<rparr>) False) = 0
   \<and> goto_search_match demo_state True
        = demo_state\<lparr>status_msg := Text ''No matches'', status_type := ''err''\<rparr>"
proof -
  have facts: "search_matches demo_search_state = [0, 1]" "match_index demo_search_state = 1"
    by (simp_all add: demo_search_state_def)
  have len: "length (search_matches demo_search_state) = 2"
    by (simp add: facts)
  from advance_cycles [of demo_search_state True] facts
  have main: "match_index (goto_search_match demo_search_state True) = 0
   \<and> match_index (goto_search_match demo_search_state False) = 0
   \<and> match_index (((\<lambda>s. goto_search_match s True) ^^ length (search_matches demo_search_state))
        demo_search_state) = 1
   \<and> match_index (goto_search_match (goto_search_match demo_search_state True) False) = 1"
    by simp
  have none: "match_index (goto_search_match (demo_search_state\<lparr>match_index := - 1\<rparr>) False) = 0"
    using advance_cycles [of "demo_search_state\<lparr>match_index := - 1\<rparr>" False]
    by (simp add: demo_search_state_def)
  have empty: "goto_search_match demo_state True
        = demo_state\<lparr>status_msg := Text ''No matches'', status_type := ''err''\<rparr>"
    using advance_cycles [of demo_state True] by (simp add: demo_state_def)
  from main none empty show ?thesis by (simp only: len)
qed

section \<open>Loading and saving\<close>

lemma split_nl_nonempty: "split_nl s \<noteq> []"
  by (induction s) (auto split: list.splits)

lemma join_split: "join_nl (split_nl s) = s"
proof (induction s)
  case Nil
  then show ?case by simp
next
  case (Cons c rest)
  obtain p ps where sp: "split_nl rest = p # ps"
    using split_nl_nonempty [of rest] by (cases "split_nl rest") auto
  show ?case
  proof (cases "c = nl")
    case True
    with Cons sp show ?thesis by simp
  next
    case False
    with Cons sp show ?thesis by (cases ps) auto
  qed
qed

lemma split_nl_single: "split_nl s = [[]] \<Longrightarrow> s = []"
  using split_nl_nonempty [of "tl s"]
  by (cases s) (auto split: if_splits list.splits)

lemma last_split_nl: "(last (split_nl s) = []) = (s = [] \<or> last s = nl)"
proof (induction s)
  case Nil
  then show ?case by simp
next
  case (Cons c rest)
  obtain p ps where sp: "split_nl rest = p # ps"
    using split_nl_nonempty [of rest] by (cases "split_nl rest") auto
  show ?case
  proof (cases "c = nl")
    case True
    with Cons sp show ?thesis by auto
  next
    case False
    show ?thesis
    proof (cases "ps = []")
      case True
      have "rest \<noteq> [] \<Longrightarrow> last rest \<noteq> nl"
      proof
        assume "rest \<noteq> []" and "last rest = nl"
        with Cons sp True have "split_nl rest = [[]]" by simp
        then have "rest = []" by (rule split_nl_single)
        with \<open>rest \<noteq> []\<close> show False by simp
      qed
      with False sp True show ?thesis by auto
    next
      case nonempty: False
      then have "rest \<noteq> []" using sp by (cases rest) auto
      with False sp nonempty Cons show ?thesis by auto
    qed
  qed
qed

lemma read_write_no_trailing:
  assumes "replace_crlf raw = raw" and "\<not> endswith_nl raw"
  shows "write_file (fst (read_file raw)) (snd (read_file raw)) = raw"
proof (cases "raw = []")
  case True
  then show ?thesis by (simp add: read_file_def write_file_def endswith_nl_def)
next
  case False
  with assms have "last (split_nl raw) \<noteq> []"
    by (simp add: last_split_nl endswith_nl_def)
  with assms show ?thesis
    by (simp add: read_file_def write_file_def Let_def join_split)
qed

lemma read_write_trailing:
  assumes "replace_crlf raw = raw" and "endswith_nl raw"
  shows "write_file (fst (read_file raw)) (snd (read_file raw)) = raw @ [nl]"
  using assms by (simp add: read_file_def write_file_def Let_def join_split)

text \<open>
  C6. Reading a file and writing the result back does not reproduce a file that ends
  with a newline: for the content \<open>a\<close> and one newline (code points 97, 10; valid UTF-8, LF only)
  \<open>read_file\<close> keeps the empty last piece of the split and sets the flag, and
  \<open>write_file\<close> then writes \<open>a\<close> and two newlines. The two lemmas before say where the round trip
  holds (content that does not end with a newline) and what comes out otherwise (the
  content with one newline more).
\<close>

theorem read_write_adds_newline:
  "read_file [97, 10] = ([[97], []], True)
   \<and> write_file (fst (read_file [97, 10])) (snd (read_file [97, 10])) = [97, 10, 10]
   \<and> write_file (fst (read_file [97, 10])) (snd (read_file [97, 10])) \<noteq> [97, 10]"
  by (simp add: read_file_def write_file_def endswith_nl_def nl_def cr_def)

text \<open>
  C7. The key \<open>s\<close>: when \<open>write_file\<close> returns, \<open>modified\<close> is cleared; when it raises,
  the state changes in its status message and status type only, so \<open>modified\<close> is as
  it was (still set if it was set). In both cases the line buffer and the
  trailing-newline flag are unchanged.
\<close>

theorem save_flags:
  "handle_key lower (Key_save outcome) st = Some (key_save outcome st)
   \<and> modified (key_save None st) = False
   \<and> status_msg (key_save None st) = Text ''Saved''
   \<and> key_save (Some e) st = st\<lparr>status_msg := Save_error e, status_type := ''err''\<rparr>
   \<and> modified (key_save (Some e) st) = modified st
   \<and> lines (key_save outcome st) = lines st
   \<and> trailing_nl (key_save outcome st) = trailing_nl st"
  by (cases outcome) (simp_all add: handle_key_def key_save_def set_status_def)

section \<open>The line buffer under the key dispatch\<close>

lemma recompute_lines: "lines (recompute_search lower st) = lines st"
  by (simp add: recompute_search_def Let_def split: option.splits)

lemma goto_lines: "lines (goto_search_match st fw) = lines st"
  by (simp add: goto_search_match_def set_status_def Let_def clamp_fields)

lemma draw_lines: "lines (draw h w st) = lines st"
  by (simp add: draw_def clamp_fields)

lemma key_moves_lines:
  "lines (key_up st) = lines st" "lines (key_down st) = lines st"
  "lines (key_ppage st) = lines st" "lines (key_npage st) = lines st"
  "lines (key_save outcome st) = lines st"
  by (simp_all add: key_up_def key_down_def key_ppage_def key_npage_def
      key_save_def set_status_def Let_def split: option.splits)

lemma key_goto_lines:
  assumes "key_goto n st = Some st'"
  shows "lines st' = lines st"
  using assms
  by (cases n) (auto simp add: key_goto_def set_status_def Let_def clamp_fields)

lemma key_search_lines: "lines (key_search lower reply st) = lines st"
  by (simp add: key_search_def set_status_def Let_def recompute_lines goto_lines
      split: option.splits)

lemma key_edit_replaced:
  assumes "0 \<le> selected_index st" and "selected_index st < total_lines st"
    and "new \<noteq> lines st ! nat (selected_index st)"
  shows "lines (key_edit lower (Some new) st) = (lines st)[nat (selected_index st) := new]"
    and "modified (key_edit lower (Some new) st)"
    and "term_active st \<Longrightarrow>
           key_edit lower (Some new) st
             = recompute_search lower
                 (st\<lparr>lines := (lines st)[nat (selected_index st) := new], modified := True,
                    status_msg := Text ''Line updated'', status_type := ''ok''\<rparr>)"
    and "\<not> term_active st \<Longrightarrow> search_matches (key_edit lower (Some new) st) = search_matches st"
  using assms
  by (simp_all add: key_edit_def set_status_def Let_def recompute_lines term_active_def
      recompute_search_def split: option.splits)

lemma key_edit_kept:
  assumes "\<not> (0 \<le> selected_index st \<and> selected_index st < total_lines st) \<or> reply = None
     \<or> reply = Some (lines st ! nat (selected_index st))"
  shows "lines (key_edit lower reply st) = lines st"
    and "modified (key_edit lower reply st) = modified st"
    and "search_matches (key_edit lower reply st) = search_matches st"
  using assms
  by (auto simp add: key_edit_def set_status_def Let_def split: option.splits)

lemma key_edit_length: "length (lines (key_edit lower reply st)) = length (lines st)"
  by (simp add: key_edit_def set_status_def Let_def recompute_lines split: option.splits)

lemma handle_key_lines:
  assumes "handle_key lower key st = Some st'" and "\<not> is_reload key" and "\<forall>r. key \<noteq> Key_edit r"
  shows "lines st' = lines st"
  using assms
  by (cases key)
    (auto simp add: handle_key_def is_reload_def key_moves_lines key_search_lines goto_lines
      set_status_def dest: key_goto_lines split: if_splits)

lemma handle_key_length:
  assumes "handle_key lower key st = Some st'" and "\<not> is_reload key"
  shows "length (lines st') = length (lines st)"
proof (cases "\<exists>r. key = Key_edit r")
  case True
  with assms show ?thesis by (auto simp add: handle_key_def key_edit_length)
next
  case False
  with assms show ?thesis by (simp add: handle_key_lines)
qed

lemma main_loop_length:
  assumes "\<forall>ev \<in> set evs. \<not> is_reload (snd ev)"
  shows "length (lines (main_loop lower evs st)) = length (lines st)"
  using assms
proof (induction evs arbitrary: st)
  case Nil
  then show ?case by simp
next
  case (Cons ev rest)
  obtain h w key where ev: "ev = ((h, w), key)" by (cases ev) auto
  show ?case
  proof (cases "handle_key lower key (draw h w st)")
    case None
    with ev show ?thesis by (simp add: draw_lines)
  next
    case (Some st')
    from Cons.prems ev have "\<not> is_reload key" by simp
    from handle_key_length [OF Some this]
    have "length (lines st') = length (lines st)" by (simp add: draw_lines)
    moreover from Cons.prems have "\<forall>ev \<in> set rest. \<not> is_reload (snd ev)" by simp
    from Cons.IH [OF this, of st'] have "length (lines (main_loop lower rest st')) = length (lines st')" .
    ultimately show ?thesis using ev Some by simp
  qed
qed

lemma main_curses_length:
  assumes "\<forall>ev \<in> set keys. \<not> is_reload (snd ev)"
  shows "length (lines (main_curses lower name config raw keys)) = length (fst (read_file raw))"
  using main_loop_length [OF assms]
  by (simp add: main_curses_def recompute_lines initial_state_def)

text \<open>
  C8. Over any sequence of keys without a reload the number of lines of the buffer
  stays what it was. Each key other than reload keeps the length, and each key other
  than reload and edit keeps the buffer as it is, as does \<open>draw\<close>. The edit key, when
  the selected index is in the buffer and the reply differs from the line there,
  replaces that one line in place, sets \<open>modified\<close> and, with a term active, leaves the
  match list recomputed over the edited buffer (without one the match list stays);
  when the reply is absent or equal to the line, or nothing is selected, buffer, flag
  and match list are unchanged.
\<close>

theorem line_count_constant:
  "((\<forall>ev \<in> set evs. \<not> is_reload (snd ev)) \<longrightarrow>
       length (lines (main_loop lower evs st)) = length (lines st))
   \<and> (\<forall>st'. handle_key lower key st = Some st' \<and> \<not> is_reload key \<longrightarrow>
         length (lines st') = length (lines st))
   \<and> (\<forall>st'. handle_key lower key st = Some st' \<and> \<not> is_reload key \<and> (\<forall>r. key \<noteq> Key_edit r) \<longrightarrow>
         lines st' = lines st)
   \<and> lines (draw h w st) = lines st
   \<and> (0 \<le> selected_index st \<and> selected_index st < total_lines st
        \<and> new \<noteq> lines st ! nat (selected_index st) \<longrightarrow>
         lines (key_edit lower (Some new) st) = (lines st)[nat (selected_index st) := new]
       \<and> modified (key_edit lower (Some new) st)
       \<and> (\<forall>tm. search_term st = Some tm \<and> tm \<noteq> [] \<longrightarrow>
             search_matches (key_edit lower (Some new) st)
               = filter (\<lambda>i. sublist (lower tm)
                                (lower ((lines st)[nat (selected_index st) := new] ! i)))
                   [0..<length (lines st)])
       \<and> (\<not> term_active st \<longrightarrow>
             search_matches (key_edit lower (Some new) st) = search_matches st))
   \<and> (\<not> (0 \<le> selected_index st \<and> selected_index st < total_lines st) \<or> reply = None
        \<or> reply = Some (lines st ! nat (selected_index st)) \<longrightarrow>
         lines (key_edit lower reply st) = lines st
       \<and> modified (key_edit lower reply st) = modified st
       \<and> search_matches (key_edit lower reply st) = search_matches st)"
proof -
  have a: "(\<forall>ev \<in> set evs. \<not> is_reload (snd ev)) \<longrightarrow>
       length (lines (main_loop lower evs st)) = length (lines st)"
    using main_loop_length [of evs lower st] by blast
  have b: "\<forall>st'. handle_key lower key st = Some st' \<and> \<not> is_reload key \<longrightarrow>
         length (lines st') = length (lines st)"
    using handle_key_length [of lower key st] by blast
  have c: "\<forall>st'. handle_key lower key st = Some st' \<and> \<not> is_reload key \<and> (\<forall>r. key \<noteq> Key_edit r) \<longrightarrow>
         lines st' = lines st"
    using handle_key_lines [of lower key st] by blast
  have d: "lines (draw h w st) = lines st"
    by (rule draw_lines)
  have e: "0 \<le> selected_index st \<and> selected_index st < total_lines st
        \<and> new \<noteq> lines st ! nat (selected_index st) \<longrightarrow>
         lines (key_edit lower (Some new) st) = (lines st)[nat (selected_index st) := new]
       \<and> modified (key_edit lower (Some new) st)
       \<and> (\<forall>tm. search_term st = Some tm \<and> tm \<noteq> [] \<longrightarrow>
             search_matches (key_edit lower (Some new) st)
               = filter (\<lambda>i. sublist (lower tm)
                                (lower ((lines st)[nat (selected_index st) := new] ! i)))
                   [0..<length (lines st)])
       \<and> (\<not> term_active st \<longrightarrow>
             search_matches (key_edit lower (Some new) st) = search_matches st)"
  proof (intro impI conjI allI)
    assume h: "0 \<le> selected_index st \<and> selected_index st < total_lines st
        \<and> new \<noteq> lines st ! nat (selected_index st)"
    then have h': "0 \<le> selected_index st" "selected_index st < total_lines st"
      "new \<noteq> lines st ! nat (selected_index st)" by simp_all
    note r = key_edit_replaced [OF h', of lower]
    show "lines (key_edit lower (Some new) st) = (lines st)[nat (selected_index st) := new]"
      by (rule r(1))
    show "modified (key_edit lower (Some new) st)" by (rule r(2))
    {
      fix tm assume tm: "search_term st = Some tm \<and> tm \<noteq> []"
      then have "term_active st" by (simp add: term_active_def)
      from r(3) [OF this] tm
      show "search_matches (key_edit lower (Some new) st)
               = filter (\<lambda>i. sublist (lower tm)
                                (lower ((lines st)[nat (selected_index st) := new] ! i)))
                   [0..<length (lines st)]"
        by (simp add: recompute_matches)
    }
    {
      assume "\<not> term_active st"
      then show "search_matches (key_edit lower (Some new) st) = search_matches st"
        by (rule r(4))
    }
  qed
  have f: "\<not> (0 \<le> selected_index st \<and> selected_index st < total_lines st) \<or> reply = None
        \<or> reply = Some (lines st ! nat (selected_index st)) \<longrightarrow>
         lines (key_edit lower reply st) = lines st
       \<and> modified (key_edit lower reply st) = modified st
       \<and> search_matches (key_edit lower reply st) = search_matches st"
    using key_edit_kept [of st reply lower] by blast
  from a b c d e f show ?thesis by blast
qed

lemma demo_keys_run:
  "lines (main_loop py_lower demo_keys demo_state)
     = [str_of ''foo bar'', str_of ''food'', str_of ''qux'']"
  "search_matches (main_loop py_lower demo_keys demo_state) = [0, 1]"
  "match_index (main_loop py_lower demo_keys demo_state) = 1"
  "selected_index (main_loop py_lower demo_keys demo_state) = 2"
  "modified (main_loop py_lower demo_keys demo_state) = False"
  by code_simp+

theorem line_count_constant_witness:
  "length (lines (main_loop py_lower demo_keys demo_state)) = 3
   \<and> lines (main_loop py_lower demo_keys demo_state)
       = [str_of ''foo bar'', str_of ''food'', str_of ''qux'']
   \<and> search_matches (main_loop py_lower demo_keys demo_state) = [0, 1]"
proof -
  have keys: "\<forall>ev \<in> set demo_keys. \<not> is_reload (snd ev)"
    by (simp add: demo_keys_def is_reload_def)
  have three: "length (lines demo_state) = 3"
    by (simp add: demo_state_def)
  from line_count_constant [of demo_keys py_lower demo_state, THEN conjunct1, THEN mp, OF keys]
  have "length (lines (main_loop py_lower demo_keys demo_state)) = 3"
    by (simp only: three)
  with demo_keys_run show ?thesis by simp
qed

end
